theory Spec2Isabelle
  imports Main "HOL-Library.Word"
begin

section \<open>Build configuration\<close>

text \<open>
  \<^verbatim>\<open>criticalsection.h\<close> is selected by the preprocessor: the \<^verbatim>\<open>WIN32\<close> branch or the
  \<^verbatim>\<open>__APPLE__\<close> branch (any other target stops at \<^verbatim>\<open>#error "please define platform!"\<close>),
  and \<^verbatim>\<open>_DEBUG\<close> defines \<^verbatim>\<open>CS_TRACK_OWNER\<close>, which turns \<^verbatim>\<open>TRACK_OWNER(x)\<close> from nothing
  into \<^verbatim>\<open>x\<close>.
\<close>

datatype platform = WIN32 | APPLE

record build =
  target :: platform
  DEBUG :: bool

definition CS_TRACK_OWNER :: "build \<Rightarrow> bool" where
  "CS_TRACK_OWNER b = DEBUG b"

text \<open>Thread identifiers (\<^verbatim>\<open>DWORD\<close> from \<^verbatim>\<open>GetCurrentThreadId()\<close>, \<^verbatim>\<open>pthread_t\<close> from
  \<^verbatim>\<open>pthread_self()\<close>). The source uses 0 for "no thread".\<close>

type_synonym tid = nat

text \<open>A call that does not return in the given state is a value: \<open>Blocked\<close> when the
  calling thread waits for the lock, \<open>Undefined\<close> when the operating system documents
  no behaviour for the call.\<close>

datatype fault = Blocked | Undefined

section \<open>The operating system's lock objects\<close>

text \<open>
  The class wraps one lock object of the operating system: a Win32 \<^verbatim>\<open>CRITICAL_SECTION\<close> or a
  \<^verbatim>\<open>pthread_mutex_t\<close>. Both record the owning thread and a recursion count; a pthread mutex
  also has the type it was initialised with. These definitions follow the documented
  behaviour of the system calls the source makes; they are the environment of the code.
\<close>

datatype mutex_type = PTHREAD_MUTEX_NORMAL | PTHREAD_MUTEX_RECURSIVE

record os_mutex =
  mtype :: mutex_type
  owner :: "tid option"
  holds :: nat

definition release_one :: "os_mutex \<Rightarrow> os_mutex" where
  "release_one m =
     (if 1 < holds m then m\<lparr>holds := holds m - 1\<rparr> else m\<lparr>owner := None, holds := 0\<rparr>)"

text \<open>Win32: a critical section can always be re-entered by its owner (the Win32 calls
  never look at the type field). \<^verbatim>\<open>LeaveCriticalSection\<close> by a thread that does not own the
  section has no documented outcome.\<close>

definition InitializeCriticalSection :: os_mutex where
  "InitializeCriticalSection = \<lparr>mtype = PTHREAD_MUTEX_RECURSIVE, owner = None, holds = 0\<rparr>"

definition EnterCriticalSection :: "tid \<Rightarrow> os_mutex \<Rightarrow> fault + os_mutex" where
  "EnterCriticalSection self m =
     (case owner m of
        None \<Rightarrow> Inr (m\<lparr>owner := Some self, holds := 1\<rparr>)
      | Some t \<Rightarrow> if t = self then Inr (m\<lparr>holds := holds m + 1\<rparr>) else Inl Blocked)"

definition TryEnterCriticalSection :: "tid \<Rightarrow> os_mutex \<Rightarrow> bool \<times> os_mutex" where
  "TryEnterCriticalSection self m =
     (case owner m of
        None \<Rightarrow> (True, m\<lparr>owner := Some self, holds := 1\<rparr>)
      | Some t \<Rightarrow> if t = self then (True, m\<lparr>holds := holds m + 1\<rparr>) else (False, m))"

definition LeaveCriticalSection :: "tid \<Rightarrow> os_mutex \<Rightarrow> fault + os_mutex" where
  "LeaveCriticalSection self m =
     (if owner m = Some self then Inr (release_one m) else Inl Undefined)"

text \<open>POSIX threads: the mutex type decides what a second lock by the owner does. A
  normal mutex deadlocks; a recursive one counts. \<^verbatim>\<open>pthread_mutex_trylock\<close> returns 0 or
  \<^verbatim>\<open>EBUSY\<close>. Unlocking a recursive mutex that the caller does not own returns \<^verbatim>\<open>EPERM\<close> and
  changes nothing (the source ignores the return value); on a normal mutex it is
  undefined.\<close>

definition pthread_mutexattr_init :: mutex_type where
  "pthread_mutexattr_init = PTHREAD_MUTEX_NORMAL"

definition pthread_mutexattr_settype :: "mutex_type \<Rightarrow> mutex_type \<Rightarrow> mutex_type" where
  "pthread_mutexattr_settype attr ty = ty"

definition pthread_mutex_init :: "mutex_type \<Rightarrow> os_mutex" where
  "pthread_mutex_init attr = \<lparr>mtype = attr, owner = None, holds = 0\<rparr>"

definition pthread_mutex_lock :: "tid \<Rightarrow> os_mutex \<Rightarrow> fault + os_mutex" where
  "pthread_mutex_lock self m =
     (case owner m of
        None \<Rightarrow> Inr (m\<lparr>owner := Some self, holds := 1\<rparr>)
      | Some t \<Rightarrow>
          if t = self \<and> mtype m = PTHREAD_MUTEX_RECURSIVE
          then Inr (m\<lparr>holds := holds m + 1\<rparr>) else Inl Blocked)"

definition EBUSY :: int where
  "EBUSY = 16"

definition pthread_mutex_trylock :: "tid \<Rightarrow> os_mutex \<Rightarrow> int \<times> os_mutex" where
  "pthread_mutex_trylock self m =
     (case owner m of
        None \<Rightarrow> (0, m\<lparr>owner := Some self, holds := 1\<rparr>)
      | Some t \<Rightarrow>
          if t = self \<and> mtype m = PTHREAD_MUTEX_RECURSIVE
          then (0, m\<lparr>holds := holds m + 1\<rparr>) else (EBUSY, m))"

definition pthread_mutex_unlock :: "tid \<Rightarrow> os_mutex \<Rightarrow> fault + os_mutex" where
  "pthread_mutex_unlock self m =
     (if owner m = Some self then Inr (release_one m)
      else if mtype m = PTHREAD_MUTEX_RECURSIVE then Inr m
      else Inl Undefined)"

section \<open>Sync::CriticalSection\<close>

text \<open>
  The object: the system lock (\<^verbatim>\<open>crit_\<close> or \<^verbatim>\<open>mutex_\<close>) and, when \<^verbatim>\<open>CS_TRACK_OWNER\<close> is
  defined, the field \<^verbatim>\<open>thread_\<close> ("The section's owning thread id"). \<open>None\<close> is a build
  without the field.
\<close>

record CriticalSection =
  crit :: os_mutex
  thread :: "tid option"

definition TRACK_OWNER :: "build \<Rightarrow> tid \<Rightarrow> CriticalSection \<Rightarrow> CriticalSection" where
  "TRACK_OWNER b x cs = (if CS_TRACK_OWNER b then cs\<lparr>thread := Some x\<rparr> else cs)"

definition CriticalSection_ctor :: "build \<Rightarrow> CriticalSection" where
  "CriticalSection_ctor b =
     (case target b of
        WIN32 \<Rightarrow> TRACK_OWNER b 0 \<lparr>crit = InitializeCriticalSection, thread = None\<rparr>
      | APPLE \<Rightarrow>
          (let mutex_attribute = pthread_mutexattr_init;
               mutex_attribute = pthread_mutexattr_settype mutex_attribute PTHREAD_MUTEX_RECURSIVE
           in TRACK_OWNER b 0 \<lparr>crit = pthread_mutex_init mutex_attribute, thread = None\<rparr>))"

definition Enter :: "build \<Rightarrow> tid \<Rightarrow> CriticalSection \<Rightarrow> fault + CriticalSection" where
  "Enter b self cs =
     (case (case target b of
              WIN32 \<Rightarrow> EnterCriticalSection self (crit cs)
            | APPLE \<Rightarrow> pthread_mutex_lock self (crit cs)) of
        Inl f \<Rightarrow> Inl f
      | Inr m \<Rightarrow> Inr (TRACK_OWNER b self (cs\<lparr>crit := m\<rparr>)))"

definition TryEnter :: "build \<Rightarrow> tid \<Rightarrow> CriticalSection \<Rightarrow> bool \<times> CriticalSection" where
  "TryEnter b self cs =
     (case target b of
        WIN32 \<Rightarrow>
          (let (ok, m) = TryEnterCriticalSection self (crit cs)
           in if ok \<noteq> False then (True, TRACK_OWNER b self (cs\<lparr>crit := m\<rparr>))
              else (False, cs\<lparr>crit := m\<rparr>))
      | APPLE \<Rightarrow>
          (let (rc, m) = pthread_mutex_trylock self (crit cs)
           in if rc = 0 then (True, TRACK_OWNER b self (cs\<lparr>crit := m\<rparr>))
              else (False, cs\<lparr>crit := m\<rparr>)))"

definition Leave :: "build \<Rightarrow> tid \<Rightarrow> CriticalSection \<Rightarrow> fault + CriticalSection" where
  "Leave b self cs =
     (let cs1 = TRACK_OWNER b 0 cs
      in case (case target b of
                 WIN32 \<Rightarrow> LeaveCriticalSection self (crit cs1)
               | APPLE \<Rightarrow> pthread_mutex_unlock self (crit cs1)) of
           Inl f \<Rightarrow> Inl f
         | Inr m \<Rightarrow> Inr (cs1\<lparr>crit := m\<rparr>))"

text \<open>\<^verbatim>\<open>CurrentThreadIsOwner\<close> exists only under \<^verbatim>\<open>CS_TRACK_OWNER\<close>: \<^verbatim>\<open>thread_ ==
  GetCurrentThreadId()\<close>, or \<^verbatim>\<open>pthread_equal(thread_, pthread_self())\<close>.\<close>

definition CurrentThreadIsOwner :: "tid \<Rightarrow> CriticalSection \<Rightarrow> bool" where
  "CurrentThreadIsOwner self cs = (thread cs = Some self)"

text \<open>The virtual interface of \<^verbatim>\<open>ISync\<close> forwards to the three methods.\<close>

definition Lock :: "build \<Rightarrow> tid \<Rightarrow> CriticalSection \<Rightarrow> fault + CriticalSection" where
  "Lock b self cs = Enter b self cs"

definition UnLock :: "build \<Rightarrow> tid \<Rightarrow> CriticalSection \<Rightarrow> fault + CriticalSection" where
  "UnLock b self cs = Leave b self cs"

definition TryLock :: "build \<Rightarrow> tid \<Rightarrow> CriticalSection \<Rightarrow> bool \<times> CriticalSection" where
  "TryLock b self cs = TryEnter b self cs"

text \<open>
  Modelled from the spec: \<^verbatim>\<open>SafeLock\<close>, declared in \<^verbatim>\<open>isync.h\<close>, which is not among the
  sources. The spec describes it as the scoped-acquisition helper, "a wrapper type that
  acquires the lock on construction and unconditionally releases it on destruction".
\<close>

definition SafeLock_ctor :: "build \<Rightarrow> tid \<Rightarrow> CriticalSection \<Rightarrow> fault + CriticalSection" where
  "SafeLock_ctor b self cs = Lock b self cs"

definition SafeLock_dtor :: "build \<Rightarrow> tid \<Rightarrow> CriticalSection \<Rightarrow> fault + CriticalSection" where
  "SafeLock_dtor b self cs = UnLock b self cs"

section \<open>AtomicOps\<close>

text \<open>
  The process memory the four operations work on: the \<^verbatim>\<open>long\<close> objects that \<^verbatim>\<open>SafeGet\<close> and
  \<^verbatim>\<open>SafeSet\<close> take by reference (their width plays no role: the value is only exchanged),
  the \<^verbatim>\<open>int\<close> objects that \<^verbatim>\<open>Increment\<close> and \<^verbatim>\<open>Decrement\<close> take by pointer (32 bits, with
  the two's-complement wrap-around of the compiled \<^verbatim>\<open>++\<close> and \<^verbatim>\<open>--\<close>), and the function-local
  static of \<^verbatim>\<open>StaticCrit\<close>, which is \<open>None\<close> until the first call.
\<close>

type_synonym addr = nat

record 'l process =
  longs :: "addr \<Rightarrow> 'l"
  ints :: "addr \<Rightarrow> 32 word"
  static_crit :: "CriticalSection option"

text \<open>The intrinsics: \<^verbatim>\<open>InterlockedExchange\<close> and \<^verbatim>\<open>__sync_lock_test_and_set\<close> store the new
  value and return the old one; \<^verbatim>\<open>InterlockedIncrement\<close> and \<^verbatim>\<open>InterlockedDecrement\<close>
  return the new value.\<close>

definition InterlockedExchange :: "(addr \<Rightarrow> 'l) \<Rightarrow> addr \<Rightarrow> 'l \<Rightarrow> 'l \<times> (addr \<Rightarrow> 'l)" where
  "InterlockedExchange m a v = (m a, m(a := v))"

definition sync_lock_test_and_set :: "(addr \<Rightarrow> 'l) \<Rightarrow> addr \<Rightarrow> 'l \<Rightarrow> 'l \<times> (addr \<Rightarrow> 'l)" where
  "sync_lock_test_and_set m a v = (m a, m(a := v))"

definition InterlockedIncrement :: "(addr \<Rightarrow> 32 word) \<Rightarrow> addr \<Rightarrow> 32 word \<times> (addr \<Rightarrow> 32 word)" where
  "InterlockedIncrement m a = (m a + 1, m(a := m a + 1))"

definition InterlockedDecrement :: "(addr \<Rightarrow> 32 word) \<Rightarrow> addr \<Rightarrow> 32 word \<times> (addr \<Rightarrow> 32 word)" where
  "InterlockedDecrement m a = (m a - 1, m(a := m a - 1))"

text \<open>\<^verbatim>\<open>SafeGet\<close> calls the exchange with \<^verbatim>\<open>nVal\<close> itself as the new value: the argument is
  a plain load of the location, made before the call, and the exchange then stores that
  value back. The load and the exchange are two accesses of the calling thread, so they
  are two steps here; \<^verbatim>\<open>SafeGet\<close> is one after the other.\<close>

definition SafeGet_load :: "'l process \<Rightarrow> addr \<Rightarrow> 'l" where
  "SafeGet_load st nVal = longs st nVal"

definition SafeGet_exchange :: "build \<Rightarrow> 'l process \<Rightarrow> addr \<Rightarrow> 'l \<Rightarrow> 'l \<times> 'l process" where
  "SafeGet_exchange b st nVal arg =
     (let (nSafeVal, m) =
        (case target b of
           WIN32 \<Rightarrow> InterlockedExchange (longs st) nVal arg
         | APPLE \<Rightarrow> sync_lock_test_and_set (longs st) nVal arg)
      in (nSafeVal, st\<lparr>longs := m\<rparr>))"

definition SafeGet :: "build \<Rightarrow> 'l process \<Rightarrow> addr \<Rightarrow> 'l \<times> 'l process" where
  "SafeGet b st nVal = SafeGet_exchange b st nVal (SafeGet_load st nVal)"

definition SafeSet :: "build \<Rightarrow> 'l process \<Rightarrow> addr \<Rightarrow> 'l \<Rightarrow> 'l \<times> 'l process" where
  "SafeSet b st nVal nNewVal =
     (let (nSafeVal, m) =
        (case target b of
           WIN32 \<Rightarrow> InterlockedExchange (longs st) nVal nNewVal
         | APPLE \<Rightarrow> sync_lock_test_and_set (longs st) nVal nNewVal)
      in (nSafeVal, st\<lparr>longs := m\<rparr>))"

text \<open>\<^verbatim>\<open>StaticCrit\<close>: the static pointer is initialised by \<^verbatim>\<open>new CriticalSection()\<close> the first
  time control passes through its declaration.\<close>

definition StaticCrit :: "build \<Rightarrow> 'l process \<Rightarrow> CriticalSection \<times> 'l process" where
  "StaticCrit b st =
     (case static_crit st of
        Some c \<Rightarrow> (c, st)
      | None \<Rightarrow> (let c = CriticalSection_ctor b in (c, st\<lparr>static_crit := Some c\<rparr>)))"

text \<open>\<^verbatim>\<open>Increment\<close> and \<^verbatim>\<open>Decrement\<close>: the intrinsic under \<^verbatim>\<open>#ifdef WIN32\<close>; otherwise
  \<^verbatim>\<open>SafeLock scope(StaticCrit()); return ++(*i);\<close> where the value is computed and stored
  before \<^verbatim>\<open>scope\<close> is destroyed.\<close>

definition Increment :: "build \<Rightarrow> tid \<Rightarrow> 'l process \<Rightarrow> addr \<Rightarrow> fault + (32 word \<times> 'l process)" where
  "Increment b self st i =
     (case target b of
        WIN32 \<Rightarrow> (let (r, m) = InterlockedIncrement (ints st) i in Inr (r, st\<lparr>ints := m\<rparr>))
      | APPLE \<Rightarrow>
          (let (c, st1) = StaticCrit b st
           in case SafeLock_ctor b self c of
                Inl f \<Rightarrow> Inl f
              | Inr c1 \<Rightarrow>
                  (let st2 = st1\<lparr>static_crit := Some c1\<rparr>;
                       r = ints st2 i + 1;
                       st3 = st2\<lparr>ints := (ints st2)(i := r)\<rparr>
                   in case SafeLock_dtor b self c1 of
                        Inl f \<Rightarrow> Inl f
                      | Inr c2 \<Rightarrow> Inr (r, st3\<lparr>static_crit := Some c2\<rparr>))))"

definition Decrement :: "build \<Rightarrow> tid \<Rightarrow> 'l process \<Rightarrow> addr \<Rightarrow> fault + (32 word \<times> 'l process)" where
  "Decrement b self st i =
     (case target b of
        WIN32 \<Rightarrow> (let (r, m) = InterlockedDecrement (ints st) i in Inr (r, st\<lparr>ints := m\<rparr>))
      | APPLE \<Rightarrow>
          (let (c, st1) = StaticCrit b st
           in case SafeLock_ctor b self c of
                Inl f \<Rightarrow> Inl f
              | Inr c1 \<Rightarrow>
                  (let st2 = st1\<lparr>static_crit := Some c1\<rparr>;
                       r = ints st2 i - 1;
                       st3 = st2\<lparr>ints := (ints st2)(i := r)\<rparr>
                   in case SafeLock_dtor b self c1 of
                        Inl f \<Rightarrow> Inl f
                      | Inr c2 \<Rightarrow> Inr (r, st3\<lparr>static_crit := Some c2\<rparr>))))"

section \<open>Call sequences on one lock\<close>

text \<open>
  The states of the lock as the specification names them, read off the system lock
  that the object wraps.
\<close>

datatype lock_state = Unlocked | LockedByT tid nat

definition lock_state_of :: "CriticalSection \<Rightarrow> lock_state" where
  "lock_state_of cs =
     (case owner (crit cs) of None \<Rightarrow> Unlocked | Some t \<Rightarrow> LockedByT t (holds (crit cs)))"

text \<open>A history is a list of calls, each by a thread, on one object that starts as the
  constructor leaves it. A call that does not return ends the history with its fault.\<close>

datatype call = Acquire | TryAcquire | Release

fun perform :: "build \<Rightarrow> CriticalSection \<Rightarrow> tid \<times> call \<Rightarrow> fault + CriticalSection" where
  "perform b cs (t, Acquire) = Enter b t cs"
| "perform b cs (t, TryAcquire) = Inr (snd (TryEnter b t cs))"
| "perform b cs (t, Release) = Leave b t cs"

fun run :: "build \<Rightarrow> CriticalSection \<Rightarrow> (tid \<times> call) list \<Rightarrow> fault + CriticalSection" where
  "run b cs [] = Inr cs"
| "run b cs (e # es) = (case perform b cs e of Inl f \<Rightarrow> Inl f | Inr cs' \<Rightarrow> run b cs' es)"

definition after :: "build \<Rightarrow> (tid \<times> call) list \<Rightarrow> fault + CriticalSection" where
  "after b es = run b (CriticalSection_ctor b) es"

section \<open>States of the shared lock of StaticCrit\<close>

text \<open>The lock behind \<^verbatim>\<open>StaticCrit()\<close> is free when it has not been created yet or nobody
  holds it; it is held by another thread when it exists and its holder is not the
  caller.\<close>

definition shared_lock_free :: "'l process \<Rightarrow> bool" where
  "shared_lock_free st =
     (case static_crit st of None \<Rightarrow> True | Some c \<Rightarrow> lock_state_of c = Unlocked)"

definition shared_lock_held_by_other :: "tid \<Rightarrow> 'l process \<Rightarrow> bool" where
  "shared_lock_held_by_other self st =
     (case static_crit st of
        None \<Rightarrow> False
      | Some c \<Rightarrow> (case lock_state_of c of Unlocked \<Rightarrow> False | LockedByT t n \<Rightarrow> t \<noteq> self))"

text \<open>Two concrete processes: one that has never called \<^verbatim>\<open>StaticCrit()\<close>, and one in which
  thread 2 is inside the locked region of \<^verbatim>\<open>Increment\<close> (a build without owner
  tracking).\<close>

definition fresh_process :: "int process" where
  "fresh_process = \<lparr>longs = (\<lambda>_. 7), ints = (\<lambda>_. 0), static_crit = None\<rparr>"

definition busy_process :: "int process" where
  "busy_process =
     \<lparr>longs = (\<lambda>_. 7), ints = (\<lambda>_. 0),
      static_crit = Some \<lparr>crit = \<lparr>mtype = PTHREAD_MUTEX_RECURSIVE, owner = Some 2, holds = 1\<rparr>,
                          thread = None\<rparr>\<rparr>"

section \<open>Threads sharing one lock and one counter\<close>

text \<open>
  Modelled from the spec: the client of the mutual-exclusion property, which is not among
  the sources. The spec describes it as threads that each, a given number of times,
  acquire the lock, increment a shared counter non-atomically inside the region, and
  release the lock. A worker is therefore a loop of four steps: \<^verbatim>\<open>Enter\<close>, load the counter
  into a local, store the local plus one, \<^verbatim>\<open>Leave\<close>. The lock is the object of this file;
  \<^verbatim>\<open>Enter\<close> and \<^verbatim>\<open>Leave\<close> are each one step, since the owner field is only written by
  the thread that holds the system lock.
\<close>

datatype region = Idle | HasLock | Loaded | Stored

record worker =
  pc :: region
  todo :: nat
  tmp :: nat

record system =
  lock :: CriticalSection
  counter :: nat
  workers :: "tid \<Rightarrow> worker"

text \<open>The next step of thread \<open>t\<close>, or \<open>None\<close> when it has none in this state: it has no
  round left, or its \<^verbatim>\<open>Enter\<close> does not return because the lock is held.\<close>

definition worker_step :: "build \<Rightarrow> tid \<Rightarrow> system \<Rightarrow> system option" where
  "worker_step b t s =
     (let w = workers s t in
      case pc w of
        Idle \<Rightarrow>
          if todo w = 0 then None
          else (case Enter b t (lock s) of
                  Inl f \<Rightarrow> None
                | Inr cs \<Rightarrow> Some (s\<lparr>lock := cs, workers := (workers s)(t := w\<lparr>pc := HasLock\<rparr>)\<rparr>))
      | HasLock \<Rightarrow> Some (s\<lparr>workers := (workers s)(t := w\<lparr>pc := Loaded, tmp := counter s\<rparr>)\<rparr>)
      | Loaded \<Rightarrow> Some (s\<lparr>counter := tmp w + 1, workers := (workers s)(t := w\<lparr>pc := Stored\<rparr>)\<rparr>)
      | Stored \<Rightarrow>
          (case Leave b t (lock s) of
             Inl f \<Rightarrow> None
           | Inr cs \<Rightarrow>
               Some (s\<lparr>lock := cs,
                       workers := (workers s)(t := w\<lparr>pc := Idle, todo := todo w - 1\<rparr>)\<rparr>)))"

text \<open>A schedule is the order in which the threads take their steps: any interleaving.
  It is \<open>None\<close> when it asks a thread for a step that the thread cannot take.\<close>

fun schedule :: "build \<Rightarrow> system \<Rightarrow> tid list \<Rightarrow> system option" where
  "schedule b s [] = Some s"
| "schedule b s (t # ts) =
     (case worker_step b t s of None \<Rightarrow> None | Some s' \<Rightarrow> schedule b s' ts)"

text \<open>At the start the lock is new, the counter is 0, and every thread of \<open>T\<close> has \<open>M\<close>
  rounds to do.\<close>

definition start :: "build \<Rightarrow> tid set \<Rightarrow> nat \<Rightarrow> system" where
  "start b T M =
     \<lparr>lock = CriticalSection_ctor b, counter = 0,
      workers = (\<lambda>t. \<lparr>pc = Idle, todo = (if t \<in> T then M else 0), tmp = 0\<rparr>)\<rparr>"

definition finished :: "worker \<Rightarrow> bool" where
  "finished w = (pc w = Idle \<and> todo w = 0)"

text \<open>Bookkeeping for the proofs: the increments a worker has written, the steps it has
  taken, and the invariant of the reachable states.\<close>

definition pc_rank :: "region \<Rightarrow> nat" where
  "pc_rank r = (case r of Idle \<Rightarrow> 0 | HasLock \<Rightarrow> 1 | Loaded \<Rightarrow> 2 | Stored \<Rightarrow> 3)"

definition credit :: "nat \<Rightarrow> worker \<Rightarrow> nat" where
  "credit M w = (M - todo w) + (if pc w = Stored then 1 else 0)"

definition progress :: "nat \<Rightarrow> worker \<Rightarrow> nat" where
  "progress M w = 4 * (M - todo w) + pc_rank (pc w)"

definition lock_inv :: "tid set \<Rightarrow> nat \<Rightarrow> system \<Rightarrow> bool" where
  "lock_inv T M s \<longleftrightarrow>
     (\<forall>t. pc (workers s t) \<noteq> Idle \<longrightarrow> lock_state_of (lock s) = LockedByT t 1)
   \<and> ((\<forall>t. pc (workers s t) = Idle) \<longrightarrow> lock_state_of (lock s) = Unlocked)
   \<and> (\<forall>t. t \<notin> T \<longrightarrow> finished (workers s t))
   \<and> (\<forall>t. pc (workers s t) \<noteq> Idle \<longrightarrow> 0 < todo (workers s t))
   \<and> (\<forall>t. todo (workers s t) \<le> M)
   \<and> (\<forall>t. pc (workers s t) = Loaded \<longrightarrow> tmp (workers s t) = counter s)
   \<and> counter s = (\<Sum>t\<in>T. credit M (workers s t))"

definition steps :: "tid set \<Rightarrow> nat \<Rightarrow> system \<Rightarrow> nat" where
  "steps T M s = (\<Sum>t\<in>T. progress M (workers s t))"

section \<open>The lock: single calls\<close>

lemmas os_defs = EnterCriticalSection_def TryEnterCriticalSection_def LeaveCriticalSection_def
  pthread_mutex_lock_def pthread_mutex_trylock_def pthread_mutex_unlock_def release_one_def
  pthread_mutex_init_def pthread_mutexattr_init_def pthread_mutexattr_settype_def
  InitializeCriticalSection_def EBUSY_def

lemma ctor_recursive: "mtype (crit (CriticalSection_ctor b)) = PTHREAD_MUTEX_RECURSIVE"
  by (cases "target b") (simp_all add: CriticalSection_ctor_def TRACK_OWNER_def os_defs)

lemma ctor_state: "lock_state_of (CriticalSection_ctor b) = Unlocked"
  by (cases "target b")
     (simp_all add: CriticalSection_ctor_def TRACK_OWNER_def os_defs lock_state_of_def)

text \<open>No call changes the type the mutex was initialised with, so every object reached
  from the constructor wraps a recursive lock.\<close>

lemma Enter_mtype: "Enter b t cs = Inr cs' \<Longrightarrow> mtype (crit cs') = mtype (crit cs)"
  by (cases "target b")
     (auto simp: Enter_def TRACK_OWNER_def os_defs split: option.splits if_splits)

lemma Leave_mtype: "Leave b t cs = Inr cs' \<Longrightarrow> mtype (crit cs') = mtype (crit cs)"
  by (cases "target b")
     (auto simp: Leave_def TRACK_OWNER_def os_defs Let_def split: option.splits if_splits)

lemma TryEnter_mtype: "mtype (crit (snd (TryEnter b t cs))) = mtype (crit cs)"
  by (cases "target b")
     (auto simp: TryEnter_def TRACK_OWNER_def os_defs Let_def split: option.splits if_splits)

lemma perform_mtype: "perform b cs e = Inr cs' \<Longrightarrow> mtype (crit cs') = mtype (crit cs)"
  by (cases e; cases "snd e") (auto simp: Enter_mtype Leave_mtype TryEnter_mtype)

lemma run_mtype: "run b cs es = Inr cs' \<Longrightarrow> mtype (crit cs') = mtype (crit cs)"
  by (induction es arbitrary: cs) (auto split: sum.splits dest: perform_mtype)

lemma after_recursive: "after b es = Inr cs \<Longrightarrow> mtype (crit cs) = PTHREAD_MUTEX_RECURSIVE"
  unfolding after_def by (drule run_mtype) (simp add: ctor_recursive)

lemma Enter_Unlocked:
  "lock_state_of cs = Unlocked \<Longrightarrow>
   \<exists>cs'. Enter b self cs = Inr cs' \<and> lock_state_of cs' = LockedByT self 1"
  by (cases "target b")
     (auto simp: Enter_def TRACK_OWNER_def os_defs lock_state_of_def
        split: option.splits if_splits)

lemma Enter_holder:
  "mtype (crit cs) = PTHREAD_MUTEX_RECURSIVE \<Longrightarrow> lock_state_of cs = LockedByT self n \<Longrightarrow>
   \<exists>cs'. Enter b self cs = Inr cs' \<and> lock_state_of cs' = LockedByT self (n + 1)"
  by (cases "target b")
     (auto simp: Enter_def TRACK_OWNER_def os_defs lock_state_of_def
        split: option.splits if_splits)

lemma Enter_other:
  "lock_state_of cs = LockedByT t n \<Longrightarrow> t \<noteq> self \<Longrightarrow> Enter b self cs = Inl Blocked"
  by (cases "target b")
     (auto simp: Enter_def TRACK_OWNER_def os_defs lock_state_of_def
        split: option.splits if_splits)

lemma Leave_holder_many:
  "lock_state_of cs = LockedByT self n \<Longrightarrow> 1 < n \<Longrightarrow>
   \<exists>cs'. Leave b self cs = Inr cs' \<and> lock_state_of cs' = LockedByT self (n - 1)"
  by (cases "target b")
     (auto simp: Leave_def TRACK_OWNER_def os_defs lock_state_of_def Let_def
        split: option.splits if_splits)

lemma Leave_holder_last:
  "lock_state_of cs = LockedByT self 1 \<Longrightarrow>
   \<exists>cs'. Leave b self cs = Inr cs' \<and> lock_state_of cs' = Unlocked"
  by (cases "target b")
     (auto simp: Leave_def TRACK_OWNER_def os_defs lock_state_of_def Let_def
        split: option.splits if_splits)

lemma TryEnter_Unlocked:
  "lock_state_of cs = Unlocked \<Longrightarrow>
   \<exists>cs'. TryEnter b self cs = (True, cs') \<and> lock_state_of cs' = LockedByT self 1"
  by (cases "target b")
     (auto simp: TryEnter_def TRACK_OWNER_def os_defs lock_state_of_def
        split: option.splits if_splits)

lemma TryEnter_holder:
  "mtype (crit cs) = PTHREAD_MUTEX_RECURSIVE \<Longrightarrow> lock_state_of cs = LockedByT self n \<Longrightarrow>
   \<exists>cs'. TryEnter b self cs = (True, cs') \<and> lock_state_of cs' = LockedByT self (n + 1)"
  by (cases "target b")
     (auto simp: TryEnter_def TRACK_OWNER_def os_defs lock_state_of_def
        split: option.splits if_splits)

lemma TryEnter_other:
  "lock_state_of cs = LockedByT t n \<Longrightarrow> t \<noteq> self \<Longrightarrow> TryEnter b self cs = (False, cs)"
  by (cases "target b")
     (auto simp: TryEnter_def TRACK_OWNER_def os_defs lock_state_of_def
        split: option.splits if_splits)

text \<open>What the owner tracking does in a build with \<^verbatim>\<open>CS_TRACK_OWNER\<close>: \<^verbatim>\<open>Enter\<close> writes the
  caller's id, and \<^verbatim>\<open>Leave\<close> writes 0 whatever the recursion count is.\<close>

lemma Enter_tracks:
  "CS_TRACK_OWNER b \<Longrightarrow> Enter b self cs = Inr cs' \<Longrightarrow> thread cs' = Some self"
  by (auto simp: Enter_def TRACK_OWNER_def split: sum.splits)

lemma Leave_clears:
  "CS_TRACK_OWNER b \<Longrightarrow> Leave b self cs = Inr cs' \<Longrightarrow> thread cs' = Some 0"
  by (auto simp: Leave_def TRACK_OWNER_def Let_def split: sum.splits)

section \<open>The atomic operations: single calls\<close>

lemmas atomic_defs = Increment_def Decrement_def InterlockedIncrement_def
  InterlockedDecrement_def StaticCrit_def SafeLock_ctor_def SafeLock_dtor_def Lock_def
  UnLock_def

lemma SafeGet_eq: "SafeGet b st loc = (longs st loc, st)"
  by (cases "target b")
     (simp_all add: SafeGet_def SafeGet_load_def SafeGet_exchange_def InterlockedExchange_def
        sync_lock_test_and_set_def)

lemma SafeSet_eq: "SafeSet b st loc v = (longs st loc, st\<lparr>longs := (longs st)(loc := v)\<rparr>)"
  by (cases "target b")
     (simp_all add: SafeSet_def InterlockedExchange_def sync_lock_test_and_set_def)

lemma Increment_WIN32:
  "target b = WIN32 \<Longrightarrow>
   Increment b self st i = Inr (ints st i + 1, st\<lparr>ints := (ints st)(i := ints st i + 1)\<rparr>)"
  by (simp add: atomic_defs)

lemma Decrement_WIN32:
  "target b = WIN32 \<Longrightarrow>
   Decrement b self st i = Inr (ints st i - 1, st\<lparr>ints := (ints st)(i := ints st i - 1)\<rparr>)"
  by (simp add: atomic_defs)

lemma Enter_Leave_free:
  assumes "lock_state_of c = Unlocked"
  shows "\<exists>c1 c2. Enter b self c = Inr c1 \<and> Leave b self c1 = Inr c2
           \<and> lock_state_of c2 = Unlocked"
proof -
  obtain c1 where c1: "Enter b self c = Inr c1" "lock_state_of c1 = LockedByT self 1"
    using assms Enter_Unlocked by blast
  then obtain c2 where "Leave b self c1 = Inr c2" "lock_state_of c2 = Unlocked"
    using Leave_holder_last by blast
  with c1 show ?thesis by blast
qed

lemma StaticCrit_free:
  "shared_lock_free st \<Longrightarrow> lock_state_of (fst (StaticCrit b st)) = Unlocked"
  by (auto simp: StaticCrit_def shared_lock_free_def ctor_state Let_def split: option.splits)

lemma Increment_fallback_free:
  assumes "target b = APPLE" and "shared_lock_free st"
  shows "\<exists>st'. Increment b self st i = Inr (ints st i + 1, st')
           \<and> ints st' = (ints st)(i := ints st i + 1) \<and> longs st' = longs st
           \<and> static_crit st' \<noteq> None \<and> shared_lock_free st'"
proof -
  define c where "c = fst (StaticCrit b st)"
  have "lock_state_of c = Unlocked"
    using assms(2) by (simp add: c_def StaticCrit_free)
  then obtain c1 c2 where
    "Enter b self c = Inr c1" "Leave b self c1 = Inr c2" "lock_state_of c2 = Unlocked"
    using Enter_Leave_free by blast
  then have "Increment b self st i
      = Inr (ints st i + 1,
             st\<lparr>ints := (ints st)(i := ints st i + 1), static_crit := Some c2\<rparr>)"
    and "lock_state_of c2 = Unlocked"
    using assms(1)
    by (auto simp: atomic_defs c_def Let_def split: option.splits)
  then show ?thesis
    by (simp add: shared_lock_free_def)
qed

lemma Decrement_fallback_free:
  assumes "target b = APPLE" and "shared_lock_free st"
  shows "\<exists>st'. Decrement b self st i = Inr (ints st i - 1, st')
           \<and> ints st' = (ints st)(i := ints st i - 1) \<and> longs st' = longs st
           \<and> static_crit st' \<noteq> None \<and> shared_lock_free st'"
proof -
  define c where "c = fst (StaticCrit b st)"
  have "lock_state_of c = Unlocked"
    using assms(2) by (simp add: c_def StaticCrit_free)
  then obtain c1 c2 where
    "Enter b self c = Inr c1" "Leave b self c1 = Inr c2" "lock_state_of c2 = Unlocked"
    using Enter_Leave_free by blast
  then have "Decrement b self st i
      = Inr (ints st i - 1,
             st\<lparr>ints := (ints st)(i := ints st i - 1), static_crit := Some c2\<rparr>)"
    and "lock_state_of c2 = Unlocked"
    using assms(1)
    by (auto simp: atomic_defs c_def Let_def split: option.splits)
  then show ?thesis
    by (simp add: shared_lock_free_def)
qed

lemma fallback_busy:
  assumes "target b = APPLE" and "shared_lock_held_by_other self st"
  shows "Increment b self st i = Inl Blocked \<and> Decrement b self st i = Inl Blocked"
proof -
  from assms(2) obtain c t n where
    c: "static_crit st = Some c" "lock_state_of c = LockedByT t n" "t \<noteq> self"
    by (auto simp: shared_lock_held_by_other_def split: option.splits lock_state.splits)
  then have "Enter b self c = Inl Blocked"
    using Enter_other by blast
  then show ?thesis
    using assms(1) c(1) by (simp add: atomic_defs)
qed

text \<open>Adding and subtracting one on 32 bits, read unsigned and signed.\<close>

lemma uint_succ_32: "uint (v + 1 :: 32 word) = (uint v + 1) mod 2 ^ 32"
  by (simp add: uint_word_ariths)

lemma uint_pred_32: "uint (v - 1 :: 32 word) = (uint v - 1) mod 2 ^ 32"
  by (simp add: uint_word_ariths)

lemma sint_succ_32:
  "sint (v + 1 :: 32 word) = (if sint v = 2 ^ 31 - 1 then - (2 ^ 31) else sint v + 1)"
proof -
  have eq: "sint (v + 1) = signed_take_bit 31 (sint v + 1)"
    by (simp add: sint_word_ariths)
  have lo: "- (2 ^ 31) \<le> sint v" and hi: "sint v < 2 ^ 31"
    using sint_ge [of v] sint_lt [of v] by simp_all
  show ?thesis
  proof (cases "sint v = 2 ^ 31 - 1")
    case True
    then show ?thesis by (simp add: eq)
  next
    case False
    with hi have "sint v + 1 < 2 ^ 31" by simp
    with lo have "signed_take_bit 31 (sint v + 1) = sint v + 1"
      by (simp add: signed_take_bit_int_eq_self)
    with False show ?thesis by (simp add: eq)
  qed
qed

lemma sint_pred_32:
  "sint (v - 1 :: 32 word) = (if sint v = - (2 ^ 31) then 2 ^ 31 - 1 else sint v - 1)"
proof -
  have eq: "sint (v - 1) = signed_take_bit 31 (sint v - 1)"
    by (simp add: sint_word_ariths)
  have lo: "- (2 ^ 31) \<le> sint v" and hi: "sint v < 2 ^ 31"
    using sint_ge [of v] sint_lt [of v] by simp_all
  show ?thesis
  proof (cases "sint v = - (2 ^ 31)")
    case True
    then show ?thesis by (simp add: eq)
  next
    case False
    with lo have "- (2 ^ 31) \<le> sint v - 1" by simp
    with hi have "signed_take_bit 31 (sint v - 1) = sint v - 1"
      by (simp add: signed_take_bit_int_eq_self)
    with False show ?thesis by (simp add: eq)
  qed
qed

section \<open>SafeSet and SafeGet\<close>

text \<open>
  C1. \<^verbatim>\<open>SafeSet(nVal, nNewVal)\<close> stores \<open>nNewVal\<close> at the location, changes nothing else, and
  returns the value the location held just before; called again on the same location it
  returns the value the first call wrote.
\<close>

theorem SafeSet_exchanges:
  "SafeSet b st loc v = (longs st loc, st\<lparr>longs := (longs st)(loc := v)\<rparr>)
   \<and> longs (snd (SafeSet b st loc v)) loc = v
   \<and> fst (SafeSet b (snd (SafeSet b st loc v)) loc w) = v"
  by (simp add: SafeSet_eq)

text \<open>
  C2. \<^verbatim>\<open>SafeGet(nVal)\<close> is meant to read the location and change nothing. Run alone it
  does: it returns the stored value and the state is the same afterwards
  (\<open>SafeGet_eq\<close>). But the call is a store of the value it loaded before, so it is not a
  read for every call: when another thread's \<^verbatim>\<open>SafeSet(nVal, 9)\<close> runs between the load
  (of 7) and the exchange, \<^verbatim>\<open>SafeGet\<close> returns 9 and leaves the location holding 7, and
  the value 9 that was set is gone. On both platforms.
\<close>

theorem SafeGet_writes_back_stale_value:
  "(let arg = SafeGet_load fresh_process 0;
        st1 = snd (SafeSet \<lparr>target = WIN32, DEBUG = False\<rparr> fresh_process 0 9);
        (r, st2) = SafeGet_exchange \<lparr>target = WIN32, DEBUG = False\<rparr> st1 0 arg
    in (arg, longs st1 0, r, longs st2 0)) = (7, 9, 9, 7)
   \<and> (let arg = SafeGet_load fresh_process 0;
        st1 = snd (SafeSet \<lparr>target = APPLE, DEBUG = False\<rparr> fresh_process 0 9);
        (r, st2) = SafeGet_exchange \<lparr>target = APPLE, DEBUG = False\<rparr> st1 0 arg
    in (arg, longs st1 0, r, longs st2 0)) = (7, 9, 9, 7)"
  by (simp add: SafeGet_load_def SafeGet_exchange_def SafeSet_def InterlockedExchange_def
        sync_lock_test_and_set_def fresh_process_def)

section \<open>Increment and Decrement\<close>

text \<open>
  C3. \<^verbatim>\<open>Increment(i)\<close> on a location holding \<open>v\<close> stores \<open>v + 1\<close> there and returns \<open>v + 1\<close>,
  the value after the increment. On the \<^verbatim>\<open>WIN32\<close> build this is the intrinsic and holds in
  every state; on the other build it is the locked \<^verbatim>\<open>++(*i)\<close>, which returns once the
  shared lock is free, and then changes no other integer and no \<^verbatim>\<open>long\<close>.
\<close>

theorem Increment_stores_and_returns_successor:
  "Increment (b\<lparr>target := WIN32\<rparr>) self st loc
     = Inr (ints st loc + 1, st\<lparr>ints := (ints st)(loc := ints st loc + 1)\<rparr>)
   \<and> (shared_lock_free st \<longrightarrow>
        (\<exists>st'. Increment (b\<lparr>target := APPLE\<rparr>) self st loc = Inr (ints st loc + 1, st')
           \<and> ints st' = (ints st)(loc := ints st loc + 1) \<and> longs st' = longs st))"
  using Increment_WIN32 [of "b\<lparr>target := WIN32\<rparr>" self st loc]
    Increment_fallback_free [of "b\<lparr>target := APPLE\<rparr>" st self loc]
  by auto

text \<open>The fallback path in a process that has not created the shared lock yet.\<close>

theorem Increment_stores_and_returns_successor_witness:
  "shared_lock_free fresh_process
   \<and> (\<exists>st'. Increment \<lparr>target = APPLE, DEBUG = True\<rparr> 1 fresh_process 3 = Inr (1, st')
         \<and> ints st' = (ints fresh_process)(3 := 1) \<and> longs st' = longs fresh_process)"
  using Increment_stores_and_returns_successor
    [of "\<lparr>target = APPLE, DEBUG = True\<rparr>" 1 fresh_process 3]
  by (simp add: shared_lock_free_def fresh_process_def)

text \<open>
  C4. \<^verbatim>\<open>Decrement(i)\<close> on a location holding \<open>v\<close> stores \<open>v - 1\<close> there and returns \<open>v - 1\<close>,
  the value after the decrement: the intrinsic on the \<^verbatim>\<open>WIN32\<close> build, the locked \<^verbatim>\<open>--(*i)\<close>
  on the other build once the shared lock is free.
\<close>

theorem Decrement_stores_and_returns_predecessor:
  "Decrement (b\<lparr>target := WIN32\<rparr>) self st loc
     = Inr (ints st loc - 1, st\<lparr>ints := (ints st)(loc := ints st loc - 1)\<rparr>)
   \<and> (shared_lock_free st \<longrightarrow>
        (\<exists>st'. Decrement (b\<lparr>target := APPLE\<rparr>) self st loc = Inr (ints st loc - 1, st')
           \<and> ints st' = (ints st)(loc := ints st loc - 1) \<and> longs st' = longs st))"
  using Decrement_WIN32 [of "b\<lparr>target := WIN32\<rparr>" self st loc]
    Decrement_fallback_free [of "b\<lparr>target := APPLE\<rparr>" st self loc]
  by auto

theorem Decrement_stores_and_returns_predecessor_witness:
  "shared_lock_free fresh_process
   \<and> (\<exists>st'. Decrement \<lparr>target = APPLE, DEBUG = True\<rparr> 1 fresh_process 3 = Inr (- 1, st')
         \<and> ints st' = (ints fresh_process)(3 := - 1) \<and> longs st' = longs fresh_process)"
  using Decrement_stores_and_returns_predecessor
    [of "\<lparr>target = APPLE, DEBUG = True\<rparr>" 1 fresh_process 3]
  by (simp add: shared_lock_free_def fresh_process_def)

text \<open>
  C10. On 32 bits: \<^verbatim>\<open>Increment\<close> stores and returns \<open>v + 1\<close> modulo \<open>2 ^ 32\<close>, so the largest
  signed value becomes the smallest, and \<^verbatim>\<open>Decrement\<close> stores and returns \<open>v - 1\<close> modulo
  \<open>2 ^ 32\<close>, so the smallest signed value becomes the largest; the intrinsic path and the
  locked path return the same value and store it at the location.
\<close>

theorem Increment_Decrement_wrap_mod_2_32:
  assumes free: "shared_lock_free st"
  shows "(\<exists>r st1 st2.
            Increment (b\<lparr>target := WIN32\<rparr>) self st loc = Inr (r, st1)
          \<and> Increment (b\<lparr>target := APPLE\<rparr>) self st loc = Inr (r, st2)
          \<and> ints st1 loc = r \<and> ints st2 loc = r
          \<and> uint r = (uint (ints st loc) + 1) mod 2 ^ 32
          \<and> sint r = (if sint (ints st loc) = 2 ^ 31 - 1 then - (2 ^ 31)
                       else sint (ints st loc) + 1))
       \<and> (\<exists>r st1 st2.
            Decrement (b\<lparr>target := WIN32\<rparr>) self st loc = Inr (r, st1)
          \<and> Decrement (b\<lparr>target := APPLE\<rparr>) self st loc = Inr (r, st2)
          \<and> ints st1 loc = r \<and> ints st2 loc = r
          \<and> uint r = (uint (ints st loc) - 1) mod 2 ^ 32
          \<and> sint r = (if sint (ints st loc) = - (2 ^ 31) then 2 ^ 31 - 1
                       else sint (ints st loc) - 1))"
proof (intro conjI)
  obtain st2 where
    "Increment (b\<lparr>target := APPLE\<rparr>) self st loc = Inr (ints st loc + 1, st2)"
    and "ints st2 = (ints st)(loc := ints st loc + 1)"
    using Increment_fallback_free [of "b\<lparr>target := APPLE\<rparr>" st self loc] free by auto
  moreover have "Increment (b\<lparr>target := WIN32\<rparr>) self st loc
      = Inr (ints st loc + 1, st\<lparr>ints := (ints st)(loc := ints st loc + 1)\<rparr>)"
    by (simp add: Increment_WIN32)
  ultimately show "\<exists>r st1 st2.
            Increment (b\<lparr>target := WIN32\<rparr>) self st loc = Inr (r, st1)
          \<and> Increment (b\<lparr>target := APPLE\<rparr>) self st loc = Inr (r, st2)
          \<and> ints st1 loc = r \<and> ints st2 loc = r
          \<and> uint r = (uint (ints st loc) + 1) mod 2 ^ 32
          \<and> sint r = (if sint (ints st loc) = 2 ^ 31 - 1 then - (2 ^ 31)
                       else sint (ints st loc) + 1)"
    using uint_succ_32 [of "ints st loc"] sint_succ_32 [of "ints st loc"] by simp
next
  obtain st2 where
    "Decrement (b\<lparr>target := APPLE\<rparr>) self st loc = Inr (ints st loc - 1, st2)"
    and "ints st2 = (ints st)(loc := ints st loc - 1)"
    using Decrement_fallback_free [of "b\<lparr>target := APPLE\<rparr>" st self loc] free by auto
  moreover have "Decrement (b\<lparr>target := WIN32\<rparr>) self st loc
      = Inr (ints st loc - 1, st\<lparr>ints := (ints st)(loc := ints st loc - 1)\<rparr>)"
    by (simp add: Decrement_WIN32)
  ultimately show "\<exists>r st1 st2.
            Decrement (b\<lparr>target := WIN32\<rparr>) self st loc = Inr (r, st1)
          \<and> Decrement (b\<lparr>target := APPLE\<rparr>) self st loc = Inr (r, st2)
          \<and> ints st1 loc = r \<and> ints st2 loc = r
          \<and> uint r = (uint (ints st loc) - 1) mod 2 ^ 32
          \<and> sint r = (if sint (ints st loc) = - (2 ^ 31) then 2 ^ 31 - 1
                       else sint (ints st loc) - 1)"
    using uint_pred_32 [of "ints st loc"] sint_pred_32 [of "ints st loc"] by simp
qed

text \<open>At the largest signed value: both paths return \<open>2 ^ 31\<close> unsigned, the smallest
  signed value.\<close>

theorem Increment_Decrement_wrap_mod_2_32_witness:
  "shared_lock_free (fresh_process\<lparr>ints := (\<lambda>_. 0x7FFFFFFF)\<rparr>)
   \<and> (\<exists>r st1 st2.
         Increment \<lparr>target = WIN32, DEBUG = False\<rparr> 1
           (fresh_process\<lparr>ints := (\<lambda>_. 0x7FFFFFFF)\<rparr>) 0 = Inr (r, st1)
       \<and> Increment \<lparr>target = APPLE, DEBUG = False\<rparr> 1
           (fresh_process\<lparr>ints := (\<lambda>_. 0x7FFFFFFF)\<rparr>) 0 = Inr (r, st2)
       \<and> ints st1 0 = r \<and> ints st2 0 = r \<and> uint r = 2 ^ 31 \<and> sint r = - (2 ^ 31))"
proof -
  have free: "shared_lock_free (fresh_process\<lparr>ints := (\<lambda>_. 0x7FFFFFFF)\<rparr>)"
    by (simp add: shared_lock_free_def fresh_process_def)
  show ?thesis
    using free
      Increment_Decrement_wrap_mod_2_32 [OF free, of "\<lparr>target = APPLE, DEBUG = False\<rparr>" 1 0]
    by simp
qed

section \<open>The lock as a state machine\<close>

text \<open>
  C5. The lock starts \<open>Unlocked\<close>, and in every state reached from the constructor:
  \<^verbatim>\<open>Enter\<close> from \<open>Unlocked\<close> returns with \<open>LockedByT self 1\<close>; \<^verbatim>\<open>Enter\<close> by the holder returns
  with the count one higher; \<^verbatim>\<open>Enter\<close> while another thread holds the lock does not return;
  \<^verbatim>\<open>Leave\<close> by the holder with count \<open>n > 1\<close> gives count \<open>n - 1\<close>; \<^verbatim>\<open>Leave\<close> with count 1
  gives \<open>Unlocked\<close>. A thread that enters a new lock twice returns from both calls, still
  holds it after one \<^verbatim>\<open>Leave\<close>, and has freed it after the second.
\<close>

theorem lock_follows_recursive_state_machine:
  assumes reach: "after b es = Inr cs"
  shows "lock_state_of (CriticalSection_ctor b) = Unlocked
    \<and> (lock_state_of cs = Unlocked \<longrightarrow>
         (\<exists>cs'. Enter b self cs = Inr cs' \<and> lock_state_of cs' = LockedByT self 1))
    \<and> (lock_state_of cs = LockedByT self n \<longrightarrow>
         (\<exists>cs'. Enter b self cs = Inr cs' \<and> lock_state_of cs' = LockedByT self (n + 1)))
    \<and> (lock_state_of cs = LockedByT t n \<and> t \<noteq> self \<longrightarrow> Enter b self cs = Inl Blocked)
    \<and> (lock_state_of cs = LockedByT self n \<and> 1 < n \<longrightarrow>
         (\<exists>cs'. Leave b self cs = Inr cs' \<and> lock_state_of cs' = LockedByT self (n - 1)))
    \<and> (lock_state_of cs = LockedByT self 1 \<longrightarrow>
         (\<exists>cs'. Leave b self cs = Inr cs' \<and> lock_state_of cs' = Unlocked))
    \<and> map_sum id lock_state_of (after b [(self, Acquire), (self, Acquire)])
        = Inr (LockedByT self 2)
    \<and> map_sum id lock_state_of (after b [(self, Acquire), (self, Acquire), (self, Release)])
        = Inr (LockedByT self 1)
    \<and> map_sum id lock_state_of
         (after b [(self, Acquire), (self, Acquire), (self, Release), (self, Release)])
        = Inr Unlocked"
proof -
  have rec: "mtype (crit cs) = PTHREAD_MUTEX_RECURSIVE"
    using reach by (rule after_recursive)
  have twice: "map_sum id lock_state_of (after b [(self, Acquire), (self, Acquire)])
        = Inr (LockedByT self 2)"
    by (cases "target b")
       (simp_all add: after_def CriticalSection_ctor_def Enter_def TRACK_OWNER_def os_defs
          lock_state_of_def)
  have thrice: "map_sum id lock_state_of
         (after b [(self, Acquire), (self, Acquire), (self, Release)])
        = Inr (LockedByT self 1)"
    by (cases "target b")
       (simp_all add: after_def CriticalSection_ctor_def Enter_def Leave_def TRACK_OWNER_def
          os_defs lock_state_of_def)
  have free: "map_sum id lock_state_of
         (after b [(self, Acquire), (self, Acquire), (self, Release), (self, Release)])
        = Inr Unlocked"
    by (cases "target b")
       (simp_all add: after_def CriticalSection_ctor_def Enter_def Leave_def TRACK_OWNER_def
          os_defs lock_state_of_def)
  show ?thesis
    using ctor_state Enter_Unlocked Enter_holder [OF rec] Enter_other Leave_holder_many
      Leave_holder_last twice thrice free
    by blast
qed

text \<open>The state after thread 1 has entered twice: thread 1 can enter a third time and
  leave once, thread 2 cannot enter.\<close>

theorem lock_follows_recursive_state_machine_witness:
  "after \<lparr>target = APPLE, DEBUG = True\<rparr> [(1, Acquire), (1, Acquire)]
     = Inr \<lparr>crit = \<lparr>mtype = PTHREAD_MUTEX_RECURSIVE, owner = Some 1, holds = 2\<rparr>,
            thread = Some 1\<rparr>
   \<and> (\<exists>cs'. Enter \<lparr>target = APPLE, DEBUG = True\<rparr> 1
          \<lparr>crit = \<lparr>mtype = PTHREAD_MUTEX_RECURSIVE, owner = Some 1, holds = 2\<rparr>,
            thread = Some 1\<rparr>
          = Inr cs' \<and> lock_state_of cs' = LockedByT 1 3)
   \<and> (\<exists>cs'. Leave \<lparr>target = APPLE, DEBUG = True\<rparr> 1
          \<lparr>crit = \<lparr>mtype = PTHREAD_MUTEX_RECURSIVE, owner = Some 1, holds = 2\<rparr>,
            thread = Some 1\<rparr>
          = Inr cs' \<and> lock_state_of cs' = LockedByT 1 1)
   \<and> Enter \<lparr>target = APPLE, DEBUG = True\<rparr> 2
          \<lparr>crit = \<lparr>mtype = PTHREAD_MUTEX_RECURSIVE, owner = Some 1, holds = 2\<rparr>,
            thread = Some 1\<rparr>
          = Inl Blocked"
proof -
  let ?b = "\<lparr>target = APPLE, DEBUG = True\<rparr>"
  let ?cs = "\<lparr>crit = \<lparr>mtype = PTHREAD_MUTEX_RECURSIVE, owner = Some 1, holds = 2\<rparr>,
              thread = Some 1\<rparr>"
  have reach: "after ?b [(1, Acquire), (1, Acquire)] = Inr ?cs"
    by (simp add: after_def CriticalSection_ctor_def Enter_def TRACK_OWNER_def
          CS_TRACK_OWNER_def os_defs)
  have st: "lock_state_of ?cs = LockedByT 1 2"
    by (simp add: lock_state_of_def)
  show ?thesis
    using reach st lock_follows_recursive_state_machine [OF reach, of 1 2 1]
      lock_follows_recursive_state_machine [OF reach, of 2 2 1]
    by simp
qed

text \<open>
  C6. With owner tracking compiled in, the field \<^verbatim>\<open>thread_\<close> is meant to be the id of the
  thread that holds the lock, and \<^verbatim>\<open>CurrentThreadIsOwner\<close> to be true for the holder at
  every depth. The code does not keep this across a nested release: after thread 1 has
  entered twice and left once it still holds the lock (count 1), yet \<^verbatim>\<open>thread_\<close> is 0 and
  \<^verbatim>\<open>CurrentThreadIsOwner\<close> answers false for thread 1, on both platforms.
\<close>

theorem owner_field_cleared_by_inner_Leave:
  "map_sum id (\<lambda>cs. (lock_state_of cs, thread cs, CurrentThreadIsOwner 1 cs))
     (after \<lparr>target = WIN32, DEBUG = True\<rparr> [(1, Acquire), (1, Acquire), (1, Release)])
     = Inr (LockedByT 1 1, Some 0, False)
   \<and> map_sum id (\<lambda>cs. (lock_state_of cs, thread cs, CurrentThreadIsOwner 1 cs))
     (after \<lparr>target = APPLE, DEBUG = True\<rparr> [(1, Acquire), (1, Acquire), (1, Release)])
     = Inr (LockedByT 1 1, Some 0, False)"
  by (simp add: after_def CriticalSection_ctor_def Enter_def Leave_def TRACK_OWNER_def
        CS_TRACK_OWNER_def os_defs lock_state_of_def CurrentThreadIsOwner_def)

text \<open>
  C7. In every state reached from the constructor, \<^verbatim>\<open>TryEnter\<close> returns true exactly when
  the lock is free or held by the caller, and then the caller holds it with the count one
  higher (1 from free); when another thread holds the lock it returns false and the
  object is unchanged. It always returns: in the state where \<^verbatim>\<open>Enter\<close> would wait,
  \<^verbatim>\<open>TryEnter\<close> answers false.
\<close>

theorem TryEnter_succeeds_iff_free_or_own:
  assumes reach: "after b es = Inr cs"
  shows "(lock_state_of cs = Unlocked \<longrightarrow>
           (\<exists>cs'. TryEnter b self cs = (True, cs') \<and> lock_state_of cs' = LockedByT self 1))
    \<and> (lock_state_of cs = LockedByT self n \<longrightarrow>
           (\<exists>cs'. TryEnter b self cs = (True, cs')
              \<and> lock_state_of cs' = LockedByT self (n + 1)))
    \<and> (lock_state_of cs = LockedByT t n \<and> t \<noteq> self \<longrightarrow>
           TryEnter b self cs = (False, cs) \<and> Enter b self cs = Inl Blocked)
    \<and> (fst (TryEnter b self cs)
         = (lock_state_of cs = Unlocked \<or> (\<exists>k. lock_state_of cs = LockedByT self k)))"
proof -
  have rec: "mtype (crit cs) = PTHREAD_MUTEX_RECURSIVE"
    using reach by (rule after_recursive)
  have iff: "fst (TryEnter b self cs)
         = (lock_state_of cs = Unlocked \<or> (\<exists>k. lock_state_of cs = LockedByT self k))"
  proof (cases "lock_state_of cs")
    case Unlocked
    then show ?thesis using TryEnter_Unlocked [of cs b self] by auto
  next
    case (LockedByT t k)
    then show ?thesis
      using TryEnter_holder [OF rec, of self k b] TryEnter_other [of cs t k self b]
      by (cases "t = self") auto
  qed
  show ?thesis
    using TryEnter_Unlocked [of cs b self] TryEnter_holder [OF rec, of self n b]
      TryEnter_other [of cs t n self b] Enter_other [of cs t n self b] iff
    by blast
qed

text \<open>The state after thread 2 has entered once: thread 1 is refused and the object is
  unchanged, thread 2 is admitted again.\<close>

theorem TryEnter_succeeds_iff_free_or_own_witness:
  "after \<lparr>target = WIN32, DEBUG = False\<rparr> [(2, Acquire)]
     = Inr \<lparr>crit = \<lparr>mtype = PTHREAD_MUTEX_RECURSIVE, owner = Some 2, holds = 1\<rparr>,
            thread = None\<rparr>
   \<and> TryEnter \<lparr>target = WIN32, DEBUG = False\<rparr> 1
        \<lparr>crit = \<lparr>mtype = PTHREAD_MUTEX_RECURSIVE, owner = Some 2, holds = 1\<rparr>,
          thread = None\<rparr>
     = (False, \<lparr>crit = \<lparr>mtype = PTHREAD_MUTEX_RECURSIVE, owner = Some 2, holds = 1\<rparr>,
                thread = None\<rparr>)
   \<and> (\<exists>cs'. TryEnter \<lparr>target = WIN32, DEBUG = False\<rparr> 2
        \<lparr>crit = \<lparr>mtype = PTHREAD_MUTEX_RECURSIVE, owner = Some 2, holds = 1\<rparr>,
          thread = None\<rparr>
     = (True, cs') \<and> lock_state_of cs' = LockedByT 2 2)"
proof -
  let ?b = "\<lparr>target = WIN32, DEBUG = False\<rparr>"
  let ?cs = "\<lparr>crit = \<lparr>mtype = PTHREAD_MUTEX_RECURSIVE, owner = Some 2, holds = 1\<rparr>,
              thread = None\<rparr>"
  have reach: "after ?b [(2, Acquire)] = Inr ?cs"
    by (simp add: after_def CriticalSection_ctor_def Enter_def TRACK_OWNER_def
          CS_TRACK_OWNER_def os_defs)
  have st: "lock_state_of ?cs = LockedByT 2 1"
    by (simp add: lock_state_of_def)
  show ?thesis
    using reach st TryEnter_succeeds_iff_free_or_own [OF reach, of 1 1 2]
      TryEnter_succeeds_iff_free_or_own [OF reach, of 2 1 2]
    by (simp add: numeral_2_eq_2)
qed

section \<open>Mutual exclusion\<close>

lemma sum_fun_upd:
  assumes "finite T" and "t \<in> T"
  shows "(\<Sum>u\<in>T. f ((g(t := w)) u)) + f (g t) = (\<Sum>u\<in>T. f (g u)) + (f w :: nat)"
proof -
  have a: "(\<Sum>u\<in>T. f ((g(t := w)) u)) = f w + (\<Sum>u\<in>T - {t}. f ((g(t := w)) u))"
    using assms by (simp add: sum.remove)
  have b: "(\<Sum>u\<in>T. f (g u)) = f (g t) + (\<Sum>u\<in>T - {t}. f (g u))"
    using assms by (simp add: sum.remove)
  have c: "(\<Sum>u\<in>T - {t}. f ((g(t := w)) u)) = (\<Sum>u\<in>T - {t}. f (g u))"
    by (rule sum.cong) auto
  show ?thesis using a b c by simp
qed

lemma lock_inv_start: "lock_inv T M (start b T M)"
  by (simp add: lock_inv_def start_def ctor_state finished_def credit_def)

lemma steps_start: "steps T M (start b T M) = 0"
  by (simp add: steps_def start_def progress_def pc_rank_def)

lemma others_idle:
  "lock_inv T M s \<Longrightarrow> pc (workers s t) \<noteq> Idle \<Longrightarrow> u \<noteq> t \<Longrightarrow> pc (workers s u) = Idle"
  by (metis lock_inv_def lock_state.inject)

lemma in_region_member:
  "lock_inv T M s \<Longrightarrow> pc (workers s t) \<noteq> Idle \<Longrightarrow> t \<in> T"
  by (auto simp: lock_inv_def finished_def)


lemma worker_step_cases:
  assumes "worker_step b t s = Some s'"
  obtains
    (do_acquire) cs where "pc (workers s t) = Idle" "0 < todo (workers s t)"
      "Enter b t (lock s) = Inr cs"
      "s' = s\<lparr>lock := cs, workers := (workers s)(t := (workers s t)\<lparr>pc := HasLock\<rparr>)\<rparr>"
  | (do_read) "pc (workers s t) = HasLock"
      "s' = s\<lparr>workers := (workers s)(t := (workers s t)\<lparr>pc := Loaded, tmp := counter s\<rparr>)\<rparr>"
  | (do_write) "pc (workers s t) = Loaded"
      "s' = s\<lparr>counter := tmp (workers s t) + 1,
              workers := (workers s)(t := (workers s t)\<lparr>pc := Stored\<rparr>)\<rparr>"
  | (do_release) cs where "pc (workers s t) = Stored" "Leave b t (lock s) = Inr cs"
      "s' = s\<lparr>lock := cs,
              workers := (workers s)(t := (workers s t)\<lparr>pc := Idle,
                todo := todo (workers s t) - 1\<rparr>)\<rparr>"
  using assms
  by (auto simp: worker_step_def Let_def split: region.splits sum.splits if_splits)

lemma step_lock_inv:
  assumes fin: "finite T" and i: "lock_inv T M s" and st: "worker_step b t s = Some s'"
  shows "lock_inv T M s' \<and> steps T M s' = steps T M s + 1"
  using st
proof (cases rule: worker_step_cases)
  case (do_acquire cs)
  have tT: "t \<in> T" using i do_acquire(1,2) by (auto simp: lock_inv_def finished_def)
  have allidle: "pc (workers s u) = Idle" for u
  proof (rule ccontr)
    assume "pc (workers s u) \<noteq> Idle"
    then have l: "lock_state_of (lock s) = LockedByT u 1" using i by (simp add: lock_inv_def)
    have "u \<noteq> t" using \<open>pc (workers s u) \<noteq> Idle\<close> do_acquire(1) by auto
    then have "Enter b t (lock s) = Inl Blocked" using Enter_other [OF l] by simp
    then show False using do_acquire(3) by simp
  qed
  then have "lock_state_of (lock s) = Unlocked" using i by (simp add: lock_inv_def)
  then have l': "lock_state_of cs = LockedByT t 1"
    using Enter_Unlocked [of "lock s" b t] do_acquire(3) by auto
  have cr: "credit M ((workers s t)\<lparr>pc := HasLock\<rparr>) = credit M (workers s t)"
    using do_acquire(1) by (simp add: credit_def)
  have pr: "progress M ((workers s t)\<lparr>pc := HasLock\<rparr>) = progress M (workers s t) + 1"
    using do_acquire(1) by (simp add: progress_def pc_rank_def)
  have sumc: "(\<Sum>u\<in>T. credit M (((workers s)(t := (workers s t)\<lparr>pc := HasLock\<rparr>)) u))
      = (\<Sum>u\<in>T. credit M (workers s u))"
    using sum_fun_upd [OF fin tT, of "credit M" "workers s" "(workers s t)\<lparr>pc := HasLock\<rparr>"] cr
    by simp
  have sump: "(\<Sum>u\<in>T. progress M (((workers s)(t := (workers s t)\<lparr>pc := HasLock\<rparr>)) u))
      = (\<Sum>u\<in>T. progress M (workers s u)) + 1"
    using sum_fun_upd [OF fin tT, of "progress M" "workers s" "(workers s t)\<lparr>pc := HasLock\<rparr>"] pr
    by simp
  have "lock_inv T M s'"
    unfolding lock_inv_def do_acquire(4)
    using i allidle l' do_acquire(2) sumc
    by (auto simp: lock_inv_def finished_def)
  moreover have "steps T M s' = steps T M s + 1"
    unfolding steps_def do_acquire(4) using sump by simp
  ultimately show ?thesis by simp
next
  case do_read
  let ?w = "(workers s t)\<lparr>pc := Loaded, tmp := counter s\<rparr>"
  have ne: "pc (workers s t) \<noteq> Idle" using do_read(1) by simp
  have tT: "t \<in> T" using in_region_member [OF i ne] .
  have oth: "u \<noteq> t \<Longrightarrow> pc (workers s u) = Idle" for u using others_idle [OF i ne] by simp
  have cr: "credit M ?w = credit M (workers s t)"
    using do_read(1) by (simp add: credit_def)
  have pr: "progress M ?w = progress M (workers s t) + 1"
    using do_read(1) by (simp add: progress_def pc_rank_def)
  have sumc: "(\<Sum>u\<in>T. credit M (((workers s)(t := ?w)) u)) = (\<Sum>u\<in>T. credit M (workers s u))"
    using sum_fun_upd [OF fin tT, of "credit M" "workers s" ?w] cr by simp
  have sump: "(\<Sum>u\<in>T. progress M (((workers s)(t := ?w)) u))
      = (\<Sum>u\<in>T. progress M (workers s u)) + 1"
    using sum_fun_upd [OF fin tT, of "progress M" "workers s" ?w] pr by simp
  have "lock_inv T M s'"
    unfolding lock_inv_def do_read(2)
    using i oth do_read(1) sumc
    by (auto simp: lock_inv_def finished_def)
  moreover have "steps T M s' = steps T M s + 1"
    unfolding steps_def do_read(2) using sump by simp
  ultimately show ?thesis by simp
next
  case do_write
  let ?w = "(workers s t)\<lparr>pc := Stored\<rparr>"
  have ne: "pc (workers s t) \<noteq> Idle" using do_write(1) by simp
  have tT: "t \<in> T" using in_region_member [OF i ne] .
  have oth: "u \<noteq> t \<Longrightarrow> pc (workers s u) = Idle" for u using others_idle [OF i ne] by simp
  have tm: "tmp (workers s t) = counter s" using i do_write(1) by (simp add: lock_inv_def)
  have cr: "credit M ?w = credit M (workers s t) + 1"
    using do_write(1) by (simp add: credit_def)
  have pr: "progress M ?w = progress M (workers s t) + 1"
    using do_write(1) by (simp add: progress_def pc_rank_def)
  have sumc: "(\<Sum>u\<in>T. credit M (((workers s)(t := ?w)) u))
      = (\<Sum>u\<in>T. credit M (workers s u)) + 1"
    using sum_fun_upd [OF fin tT, of "credit M" "workers s" ?w] cr by simp
  have sump: "(\<Sum>u\<in>T. progress M (((workers s)(t := ?w)) u))
      = (\<Sum>u\<in>T. progress M (workers s u)) + 1"
    using sum_fun_upd [OF fin tT, of "progress M" "workers s" ?w] pr by simp
  have "lock_inv T M s'"
    unfolding lock_inv_def do_write(2)
    using i oth do_write(1) sumc tm
    by (auto simp: lock_inv_def finished_def)
  moreover have "steps T M s' = steps T M s + 1"
    unfolding steps_def do_write(2) using sump by simp
  ultimately show ?thesis by simp
next
  case (do_release cs)
  let ?w = "(workers s t)\<lparr>pc := Idle, todo := todo (workers s t) - 1\<rparr>"
  have ne: "pc (workers s t) \<noteq> Idle" using do_release(1) by simp
  have tT: "t \<in> T" using in_region_member [OF i ne] .
  have oth: "u \<noteq> t \<Longrightarrow> pc (workers s u) = Idle" for u using others_idle [OF i ne] by simp
  have l: "lock_state_of (lock s) = LockedByT t 1" using i ne by (simp add: lock_inv_def)
  have l': "lock_state_of cs = Unlocked"
    using Leave_holder_last [OF l, of b] do_release(2) by auto
  have pos: "0 < todo (workers s t)" and le: "todo (workers s t) \<le> M"
    using i ne by (simp_all add: lock_inv_def)
  have cr: "credit M ?w = credit M (workers s t)"
    using do_release(1) pos le by (simp add: credit_def)
  have pr: "progress M ?w = progress M (workers s t) + 1"
    using do_release(1) pos le by (simp add: progress_def pc_rank_def)
  have sumc: "(\<Sum>u\<in>T. credit M (((workers s)(t := ?w)) u)) = (\<Sum>u\<in>T. credit M (workers s u))"
    using sum_fun_upd [OF fin tT, of "credit M" "workers s" ?w] cr by simp
  have sump: "(\<Sum>u\<in>T. progress M (((workers s)(t := ?w)) u))
      = (\<Sum>u\<in>T. progress M (workers s u)) + 1"
    using sum_fun_upd [OF fin tT, of "progress M" "workers s" ?w] pr by simp
  have le': "todo (workers s t) - 1 \<le> M" using le by simp
  have "lock_inv T M s'"
    unfolding lock_inv_def do_release(3)
    using i oth do_release(1) sumc l' le'
    by (auto simp: lock_inv_def finished_def)
  moreover have "steps T M s' = steps T M s + 1"
    unfolding steps_def do_release(3) using sump by simp
  ultimately show ?thesis by simp
qed


lemma schedule_lock_inv:
  assumes fin: "finite T"
  shows "lock_inv T M s \<Longrightarrow> schedule b s ts = Some s' \<Longrightarrow>
         lock_inv T M s' \<and> steps T M s' = steps T M s + length ts"
proof (induction ts arbitrary: s)
  case Nil
  then show ?case by simp
next
  case (Cons t ts)
  from Cons.prems(2) obtain s1 where s1: "worker_step b t s = Some s1"
    and rest: "schedule b s1 ts = Some s'"
    by (auto split: option.splits)
  from step_lock_inv [OF fin Cons.prems(1) s1]
  have "lock_inv T M s1" and "steps T M s1 = steps T M s + 1" by simp_all
  with Cons.IH [OF _ rest] show ?case by simp
qed

lemma schedule_append:
  "schedule b s (ts @ us) =
     (case schedule b s ts of None \<Rightarrow> None | Some s' \<Rightarrow> schedule b s' us)"
  by (induction ts arbitrary: s) (auto split: option.splits)

lemma progress_le: "lock_inv T M s \<Longrightarrow> progress M (workers s t) \<le> 4 * M"
proof -
  assume i: "lock_inv T M s"
  have le: "todo (workers s t) \<le> M" using i by (simp add: lock_inv_def)
  show ?thesis
  proof (cases "pc (workers s t) = Idle")
    case True
    then show ?thesis by (simp add: progress_def pc_rank_def)
  next
    case False
    then have "0 < todo (workers s t)" using i by (simp add: lock_inv_def)
    moreover have "pc_rank (pc (workers s t)) \<le> 3"
      by (cases "pc (workers s t)") (simp_all add: pc_rank_def)
    ultimately show ?thesis using le by (simp add: progress_def)
  qed
qed

lemma steps_le: "lock_inv T M s \<Longrightarrow> steps T M s \<le> 4 * card T * M"
proof -
  assume i: "lock_inv T M s"
  have "(\<Sum>t\<in>T. progress M (workers s t)) \<le> of_nat (card T) * (4 * M)"
    by (rule sum_bounded_above) (simp add: progress_le [OF i])
  then show ?thesis by (simp add: steps_def)
qed

lemma exclusion:
  "lock_inv T M s \<Longrightarrow> pc (workers s t1) \<noteq> Idle \<Longrightarrow> pc (workers s t2) \<noteq> Idle \<Longrightarrow> t1 = t2"
  using others_idle by blast

lemma final_count:
  assumes "lock_inv T M s" and "\<forall>t\<in>T. finished (workers s t)"
  shows "counter s = card T * M"
proof -
  have "(\<Sum>t\<in>T. credit M (workers s t)) = (\<Sum>t\<in>T. M)"
    using assms(2) by (intro sum.cong) (auto simp: credit_def finished_def)
  then show ?thesis using assms(1) by (simp add: lock_inv_def)
qed

lemma no_deadlock:
  assumes i: "lock_inv T M s" and nf: "\<not> (\<forall>t\<in>T. finished (workers s t))"
  shows "\<exists>t\<in>T. \<exists>s'. worker_step b t s = Some s'"
proof (cases "\<forall>t. pc (workers s t) = Idle")
  case True
  from nf obtain t where t: "t \<in> T" "\<not> finished (workers s t)" by blast
  with True have pos: "0 < todo (workers s t)" by (simp add: finished_def)
  have "lock_state_of (lock s) = Unlocked" using i True by (simp add: lock_inv_def)
  then obtain cs where "Enter b t (lock s) = Inr cs" using Enter_Unlocked by blast
  then have "\<exists>s'. worker_step b t s = Some s'"
    using True pos by (simp add: worker_step_def Let_def)
  with t(1) show ?thesis by blast
next
  case False
  then obtain t where ne: "pc (workers s t) \<noteq> Idle" by blast
  have tT: "t \<in> T" using in_region_member [OF i ne] .
  have l: "lock_state_of (lock s) = LockedByT t 1" using i ne by (simp add: lock_inv_def)
  obtain cs where "Leave b t (lock s) = Inr cs" using Leave_holder_last [OF l] by blast
  then have "\<exists>s'. worker_step b t s = Some s'"
    using ne by (cases "pc (workers s t)") (simp_all add: worker_step_def Let_def)
  with tT show ?thesis by blast
qed

lemma can_finish:
  assumes fin: "finite T"
  shows "lock_inv T M s \<Longrightarrow>
         \<exists>us s'. schedule b s us = Some s' \<and> lock_inv T M s' \<and> (\<forall>t\<in>T. finished (workers s' t))"
proof (induction "4 * card T * M - steps T M s" arbitrary: s rule: less_induct)
  case less
  show ?case
  proof (cases "\<forall>t\<in>T. finished (workers s t)")
    case True
    then have "schedule b s [] = Some s \<and> lock_inv T M s \<and> (\<forall>t\<in>T. finished (workers s t))"
      using less.prems by simp
    then show ?thesis by blast
  next
    case False
    then obtain t s1 where s1: "worker_step b t s = Some s1"
      using no_deadlock [OF less.prems] by blast
    from step_lock_inv [OF fin less.prems s1]
    have i1: "lock_inv T M s1" and st: "steps T M s1 = steps T M s + 1" by simp_all
    have "steps T M s1 \<le> 4 * card T * M" using steps_le [OF i1] .
    then have "4 * card T * M - steps T M s1 < 4 * card T * M - steps T M s"
      using st by simp
    from less.hyps [OF this i1] obtain us s' where
      "schedule b s1 us = Some s'" "lock_inv T M s'" "\<forall>t\<in>T. finished (workers s' t)"
      by blast
    then have "schedule b s (t # us) = Some s' \<and> lock_inv T M s' \<and> (\<forall>t\<in>T. finished (workers s' t))"
      using s1 by simp
    then show ?thesis by blast
  qed
qed

text \<open>
  C9. For every finite set \<open>T\<close> of threads, every number \<open>M\<close> of rounds and every
  interleaving of their steps on one lock: no two threads are inside the region between
  \<^verbatim>\<open>Enter\<close> and \<^verbatim>\<open>Leave\<close> at the same time; when all threads have finished, the counter
  holds exactly \<open>card T * M\<close>; as long as some thread has not finished, some thread can
  take a step; no interleaving is longer than \<open>4 * card T * M\<close> steps; and from every
  reachable state the threads can run to the end, where the counter is \<open>card T * M\<close>.
\<close>

theorem lock_serialises_counter_increments:
  assumes fin: "finite T" and reach: "schedule b (start b T M) ts = Some s"
  shows "(pc (workers s t1) \<noteq> Idle \<and> pc (workers s t2) \<noteq> Idle \<longrightarrow> t1 = t2)
    \<and> ((\<forall>t\<in>T. finished (workers s t)) \<longrightarrow> counter s = card T * M)
    \<and> (\<not> (\<forall>t\<in>T. finished (workers s t)) \<longrightarrow> (\<exists>t\<in>T. worker_step b t s \<noteq> None))
    \<and> length ts \<le> 4 * card T * M
    \<and> (\<exists>us s'. schedule b s us = Some s' \<and> (\<forall>t\<in>T. finished (workers s' t))
          \<and> counter s' = card T * M)"
proof -
  from schedule_lock_inv [OF fin lock_inv_start reach]
  have i: "lock_inv T M s" and len: "steps T M s = length ts"
    by (simp_all add: steps_start)
  have a: "pc (workers s t1) \<noteq> Idle \<and> pc (workers s t2) \<noteq> Idle \<longrightarrow> t1 = t2"
    using exclusion [OF i] by blast
  have b: "(\<forall>t\<in>T. finished (workers s t)) \<longrightarrow> counter s = card T * M"
    using final_count [OF i] by blast
  have c: "\<not> (\<forall>t\<in>T. finished (workers s t)) \<longrightarrow> (\<exists>t\<in>T. worker_step b t s \<noteq> None)"
    using no_deadlock [OF i, of b] by fastforce
  have d: "length ts \<le> 4 * card T * M"
    using steps_le [OF i] len by simp
  obtain us s' where "schedule b s us = Some s'" "lock_inv T M s'" "\<forall>t\<in>T. finished (workers s' t)"
    using can_finish [OF fin i, of b] by blast
  then have e: "\<exists>us s'. schedule b s us = Some s' \<and> (\<forall>t\<in>T. finished (workers s' t))
          \<and> counter s' = card T * M"
    using final_count by blast
  show ?thesis using a b c d e by blast
qed

text \<open>Two threads, one round each, on the pthread build with owner tracking: thread 2
  cannot enter after thread 1 has; run one after the other they finish with counter 2.\<close>

theorem lock_serialises_counter_increments_witness:
  "finite {1, 2 :: tid}
   \<and> schedule \<lparr>target = APPLE, DEBUG = True\<rparr> (start \<lparr>target = APPLE, DEBUG = True\<rparr> {1, 2} 1)
            [1, 2] = None
   \<and> (\<exists>s. schedule \<lparr>target = APPLE, DEBUG = True\<rparr> (start \<lparr>target = APPLE, DEBUG = True\<rparr> {1, 2} 1)
            [1, 1, 1, 1, 2, 2, 2, 2] = Some s
          \<and> finished (workers s 1) \<and> finished (workers s 2) \<and> counter s = 2)"
proof -
  let ?b = "\<lparr>target = APPLE, DEBUG = True\<rparr>"
  have blocked: "schedule ?b (start ?b {1, 2} 1) [1, 2] = None"
    by code_simp
  have "map_option (\<lambda>s. (finished (workers s 1), finished (workers s 2)))
          (schedule ?b (start ?b {1, 2} 1) [1, 1, 1, 1, 2, 2, 2, 2]) = Some (True, True)"
    by code_simp
  then obtain s where sched: "schedule ?b (start ?b {1, 2} 1) [1, 1, 1, 1, 2, 2, 2, 2] = Some s"
    and ends: "finished (workers s 1)" "finished (workers s 2)"
    by auto
  have fin: "finite {1, 2 :: tid}" by simp
  have "counter s = 2"
    using lock_serialises_counter_increments [OF fin sched, of 1 2] ends by simp
  with sched ends blocked show ?thesis by simp
qed

section \<open>Which operations use the shared lock\<close>

text \<open>
  C8, as the code has it. Only \<^verbatim>\<open>Increment\<close> and \<^verbatim>\<open>Decrement\<close> have an implementation that
  takes the shared lock: started with the lock free it creates the lock if need be, returns
  the same value and stores the same integers as the intrinsic path, and leaves the lock
  free; while another thread holds the lock it does not return. \<^verbatim>\<open>SafeGet\<close> and \<^verbatim>\<open>SafeSet\<close>
  are the same exchange on both builds and never create, take or change the shared lock.
\<close>

theorem lock_fallback_only_for_Increment_Decrement:
  "(shared_lock_free st \<longrightarrow>
      (\<exists>r st1 st2.
          Increment (b\<lparr>target := WIN32\<rparr>) self st i = Inr (r, st1)
        \<and> Increment (b\<lparr>target := APPLE\<rparr>) self st i = Inr (r, st2)
        \<and> ints st2 = ints st1 \<and> longs st2 = longs st1
        \<and> static_crit st2 \<noteq> None \<and> shared_lock_free st2)
    \<and> (\<exists>r st1 st2.
          Decrement (b\<lparr>target := WIN32\<rparr>) self st i = Inr (r, st1)
        \<and> Decrement (b\<lparr>target := APPLE\<rparr>) self st i = Inr (r, st2)
        \<and> ints st2 = ints st1 \<and> longs st2 = longs st1
        \<and> static_crit st2 \<noteq> None \<and> shared_lock_free st2))
   \<and> (shared_lock_held_by_other self st \<longrightarrow>
        Increment (b\<lparr>target := APPLE\<rparr>) self st i = Inl Blocked
      \<and> Decrement (b\<lparr>target := APPLE\<rparr>) self st i = Inl Blocked)
   \<and> SafeGet (b\<lparr>target := APPLE\<rparr>) st a = SafeGet (b\<lparr>target := WIN32\<rparr>) st a
   \<and> SafeSet (b\<lparr>target := APPLE\<rparr>) st a v = SafeSet (b\<lparr>target := WIN32\<rparr>) st a v
   \<and> static_crit (snd (SafeGet b st a)) = static_crit st
   \<and> static_crit (snd (SafeSet b st a v)) = static_crit st"
proof -
  have inc: "\<exists>r st1 st2.
          Increment (b\<lparr>target := WIN32\<rparr>) self st i = Inr (r, st1)
        \<and> Increment (b\<lparr>target := APPLE\<rparr>) self st i = Inr (r, st2)
        \<and> ints st2 = ints st1 \<and> longs st2 = longs st1
        \<and> static_crit st2 \<noteq> None \<and> shared_lock_free st2" if "shared_lock_free st"
    using Increment_fallback_free [of "b\<lparr>target := APPLE\<rparr>" st self i] that
    by (auto simp: Increment_WIN32)
  have dec: "\<exists>r st1 st2.
          Decrement (b\<lparr>target := WIN32\<rparr>) self st i = Inr (r, st1)
        \<and> Decrement (b\<lparr>target := APPLE\<rparr>) self st i = Inr (r, st2)
        \<and> ints st2 = ints st1 \<and> longs st2 = longs st1
        \<and> static_crit st2 \<noteq> None \<and> shared_lock_free st2" if "shared_lock_free st"
    using Decrement_fallback_free [of "b\<lparr>target := APPLE\<rparr>" st self i] that
    by (auto simp: Decrement_WIN32)
  have busy: "Increment (b\<lparr>target := APPLE\<rparr>) self st i = Inl Blocked
      \<and> Decrement (b\<lparr>target := APPLE\<rparr>) self st i = Inl Blocked"
    if "shared_lock_held_by_other self st"
    using fallback_busy [of "b\<lparr>target := APPLE\<rparr>" self st i] that by simp
  show ?thesis
    using inc dec busy by (simp add: SafeGet_eq SafeSet_eq)
qed

text \<open>Both hypotheses at concrete processes: the lock not created yet, and the lock held
  by thread 2.\<close>

theorem lock_fallback_only_for_Increment_Decrement_witness:
  "shared_lock_free fresh_process
   \<and> (\<exists>r st1 st2.
          Increment \<lparr>target = WIN32, DEBUG = False\<rparr> 1 fresh_process 0 = Inr (r, st1)
        \<and> Increment \<lparr>target = APPLE, DEBUG = False\<rparr> 1 fresh_process 0 = Inr (r, st2)
        \<and> ints st2 = ints st1 \<and> longs st2 = longs st1
        \<and> static_crit st2 \<noteq> None \<and> shared_lock_free st2)
   \<and> shared_lock_held_by_other 1 busy_process
   \<and> Increment \<lparr>target = APPLE, DEBUG = False\<rparr> 1 busy_process 0 = Inl Blocked
   \<and> Decrement \<lparr>target = APPLE, DEBUG = False\<rparr> 1 busy_process 0 = Inl Blocked"
proof -
  have free: "shared_lock_free fresh_process"
    by (simp add: shared_lock_free_def fresh_process_def)
  have held: "shared_lock_held_by_other 1 busy_process"
    by (simp add: shared_lock_held_by_other_def busy_process_def lock_state_of_def)
  show ?thesis
    using free held
      lock_fallback_only_for_Increment_Decrement
        [of fresh_process "\<lparr>target = APPLE, DEBUG = False\<rparr>" 1 0]
      lock_fallback_only_for_Increment_Decrement
        [of busy_process "\<lparr>target = APPLE, DEBUG = False\<rparr>" 1 0]
    by simp
qed

text \<open>
  C8 as stated fails for \<^verbatim>\<open>SafeGet\<close> and \<^verbatim>\<open>SafeSet\<close>. On the build that is not \<^verbatim>\<open>WIN32\<close>, while
  thread 2 holds the shared lock, both return at once for thread 1 with the lock
  untouched, where \<^verbatim>\<open>Increment\<close> waits; and in a process that has not created the shared
  lock they do not create it.
\<close>

theorem SafeSet_takes_no_lock:
  "SafeSet \<lparr>target = APPLE, DEBUG = False\<rparr> busy_process 0 5
     = (7, busy_process\<lparr>longs := (longs busy_process)(0 := 5)\<rparr>)
   \<and> SafeGet \<lparr>target = APPLE, DEBUG = False\<rparr> busy_process 0 = (7, busy_process)
   \<and> shared_lock_held_by_other 1 busy_process
   \<and> Increment \<lparr>target = APPLE, DEBUG = False\<rparr> 1 busy_process 0 = Inl Blocked
   \<and> static_crit (snd (SafeGet \<lparr>target = APPLE, DEBUG = False\<rparr> fresh_process 0)) = None
   \<and> static_crit (snd (SafeSet \<lparr>target = APPLE, DEBUG = False\<rparr> fresh_process 0 5)) = None"
  by (simp add: SafeGet_eq SafeSet_eq busy_process_def fresh_process_def
        shared_lock_held_by_other_def lock_state_of_def atomic_defs Enter_def os_defs)

end
